theory Spec2Isabelle
  imports Main
begin

section \<open>The barge-in logic of \<open>examples/voice_agents/basic_agent.py\<close>\<close>

text \<open>
  The agent keeps one module-level flag, \<open>agent_is_speaking\<close>, and two module-level
  word lists. Two lifecycle hooks write the flag; the transcription hook
  \<open>on_message\<close> reads the flag and the lists and returns either the message it was
  given or \<open>None\<close>. Every hook also writes to the logger. The hooks are coroutines
  with no \<open>await\<close> inside, so a call runs from its first line to its return without
  another hook running in between.

  A Python \<open>str\<close> is a sequence of code points. The model uses \<open>string\<close>, whose
  characters are the code points 0 to 255; on that range \<open>str.lower\<close> maps one
  character to one character and the functions below are Python's.
\<close>

subsection \<open>String operations used by the hook\<close>

text \<open>\<open>str.isspace\<close> on one character: the code points 9-13, 28-32, 133 and 160.\<close>

definition isspace :: "char \<Rightarrow> bool" where
  "isspace c =
     (let n = (of_char c :: nat)
      in (9 \<le> n \<and> n \<le> 13) \<or> (28 \<le> n \<and> n \<le> 32) \<or> n = 133 \<or> n = 160)"

text \<open>
  \<open>str.lower\<close> on one character: \<open>A\<close>-\<open>Z\<close> and the upper-case letters of the
  Latin-1 block (192-214 and 216-222) move up by 32, everything else stays.
\<close>

definition lower_char :: "char \<Rightarrow> char" where
  "lower_char c =
     (let n = (of_char c :: nat)
      in if (65 \<le> n \<and> n \<le> 90) \<or> (192 \<le> n \<and> n \<le> 214) \<or> (216 \<le> n \<and> n \<le> 222)
         then char_of (n + 32) else c)"

definition lower :: "string \<Rightarrow> string" where
  "lower s = map lower_char s"

text \<open>\<open>str.strip()\<close>: whitespace is removed from both ends.\<close>

definition strip :: "string \<Rightarrow> string" where
  "strip s = rev (dropWhile isspace (rev (dropWhile isspace s)))"

text \<open>
  \<open>str.split()\<close> without a separator: runs of whitespace separate the tokens and no
  token is empty.
\<close>

function split :: "string \<Rightarrow> string list" where
  "split s =
     (case dropWhile isspace s of
        [] \<Rightarrow> []
      | c # cs \<Rightarrow>
          takeWhile (\<lambda>x. \<not> isspace x) (c # cs) # split (dropWhile (\<lambda>x. \<not> isspace x) (c # cs)))"
  by pat_completeness auto
termination
proof (relation "measure length")
  show "wf (measure length)" by simp
next
  fix s :: string and c cs
  assume d: "dropWhile isspace s = c # cs"
  have "\<not> isspace c" using d hd_dropWhile [of isspace s] by simp
  then have "length (dropWhile (\<lambda>x. \<not> isspace x) (c # cs)) \<le> length cs"
    by (simp add: length_dropWhile_le)
  also have "length cs < length (dropWhile isspace s)" using d by simp
  also have "\<dots> \<le> length s" by (rule length_dropWhile_le)
  finally show "(dropWhile (\<lambda>x. \<not> isspace x) (c # cs), s) \<in> measure length" by simp
qed

declare split.simps [simp del]

text \<open>\<open>text.startswith(word)\<close>, used to define the substring test.\<close>

fun startswith :: "string \<Rightarrow> string \<Rightarrow> bool" where
  "startswith [] text = True"
| "startswith (w # ws) [] = False"
| "startswith (w # ws) (c # cs) = (w = c \<and> startswith ws cs)"

text \<open>\<open>word in text\<close> on two strings: \<open>word\<close> occurs in \<open>text\<close> as a contiguous run.\<close>

fun is_substring :: "string \<Rightarrow> string \<Rightarrow> bool" where
  "is_substring word [] = (word = [])"
| "is_substring word (c # cs) = (startswith word (c # cs) \<or> is_substring word cs)"

subsection \<open>Module state\<close>

text \<open>
  What the logger and the session receive, in order. \<open>LogUserSaid\<close> carries the four
  values interpolated into the first log line of \<open>on_message\<close>.
\<close>

datatype event =
    LogAgentStarted
  | GenerateReply
  | LogAgentFinished
  | LogUserSaid string bool bool bool
  | LogRealInterruption
  | LogPassiveAcknowledgement
  | LogSemanticInterruption
  | LogAgentSilent

record state =
  agent_is_speaking :: bool
  IGNORE_WORDS :: "string list"
  INTERRUPT_WORDS :: "string list"
  trace :: "event list"

text \<open>The module's top level, with the two list literals as arguments.\<close>

definition module_init :: "string list \<Rightarrow> string list \<Rightarrow> state" where
  "module_init ignore_words interrupt_words =
     \<lparr>agent_is_speaking = False,
      IGNORE_WORDS = ignore_words,
      INTERRUPT_WORDS = interrupt_words,
      trace = []\<rparr>"

definition initial_state :: state where
  "initial_state =
     module_init [''yeah'', ''ok'', ''okay'', ''hmm'', ''uh-huh'', ''right'']
                 [''stop'', ''wait'', ''no'', ''hold on'']"

subsection \<open>The hooks\<close>

definition on_enter :: "state \<Rightarrow> state" where
  "on_enter s =
     s\<lparr>agent_is_speaking := True, trace := trace s @ [LogAgentStarted, GenerateReply]\<rparr>"

definition on_response_complete :: "state \<Rightarrow> state" where
  "on_response_complete s =
     s\<lparr>agent_is_speaking := False, trace := trace s @ [LogAgentFinished]\<rparr>"

text \<open>The two tests of \<open>on_message\<close>, on the normalized text and on its tokens.\<close>

definition contains_interrupt :: "state \<Rightarrow> string \<Rightarrow> bool" where
  "contains_interrupt s text = list_ex (\<lambda>word. is_substring word text) (INTERRUPT_WORDS s)"

definition only_soft_words :: "state \<Rightarrow> string list \<Rightarrow> bool" where
  "only_soft_words s words =
     (length words > 0 \<and> list_all (\<lambda>word. word \<in> set (IGNORE_WORDS s)) words)"

definition on_message :: "state \<Rightarrow> string \<Rightarrow> string option \<times> state" where
  "on_message s message =
     (let text = strip (lower message);
          words = split text;
          interrupt = contains_interrupt s text;
          soft_only = only_soft_words s words;
          s1 = s\<lparr>trace := trace s @
                 [LogUserSaid text (agent_is_speaking s) interrupt soft_only]\<rparr>
      in if agent_is_speaking s then
           if interrupt then
             (Some message, s1\<lparr>trace := trace s1 @ [LogRealInterruption]\<rparr>)
           else if soft_only then
             (None, s1\<lparr>trace := trace s1 @ [LogPassiveAcknowledgement]\<rparr>)
           else
             (Some message, s1\<lparr>trace := trace s1 @ [LogSemanticInterruption]\<rparr>)
         else
           (Some message, s1\<lparr>trace := trace s1 @ [LogAgentSilent]\<rparr>))"

subsection \<open>The hook's outcome as a decision\<close>

text \<open>
  The hook returns a message or \<open>None\<close>, and its last log line tells which branch
  returned. Read together they are the decision taken: a forwarded message is a hard
  interrupt, a semantic interrupt or a pass-through according to the branch, and
  \<open>None\<close> from the acknowledgement branch is the ignore decision. No other pairing
  of log line and return value is a decision.
\<close>

datatype decision =
    PassThrough string
  | HardInterrupt string
  | SemanticInterrupt string
  | Ignore

fun decision_of :: "event \<Rightarrow> string option \<Rightarrow> decision option" where
  "decision_of LogRealInterruption (Some m) = Some (HardInterrupt m)"
| "decision_of LogPassiveAcknowledgement None = Some Ignore"
| "decision_of LogSemanticInterruption (Some m) = Some (SemanticInterrupt m)"
| "decision_of LogAgentSilent (Some m) = Some (PassThrough m)"
| "decision_of _ _ = None"

definition Classify :: "state \<Rightarrow> string \<Rightarrow> decision option" where
  "Classify s message =
     (case on_message s message of
        (r, s') \<Rightarrow> (case rev (trace s') of [] \<Rightarrow> None | e # _ \<Rightarrow> decision_of e r))"

subsection \<open>Runs of hook calls\<close>

datatype call = Enter | ResponseComplete | Message string

fun step :: "state \<Rightarrow> call \<Rightarrow> state" where
  "step s Enter = on_enter s"
| "step s ResponseComplete = on_response_complete s"
| "step s (Message m) = snd (on_message s m)"

definition run :: "state \<Rightarrow> call list \<Rightarrow> state" where
  "run s calls = foldl step s calls"

section \<open>Properties\<close>

subsection \<open>The string operations\<close>

lemma startswith_iff: "startswith w t \<longleftrightarrow> (\<exists>ss. t = w @ ss)"
  by (induction w t rule: startswith.induct) auto

lemma is_substring_iff: "is_substring w t \<longleftrightarrow> (\<exists>ps ss. t = ps @ w @ ss)"
proof (induction t)
  case Nil
  show ?case by auto
next
  case (Cons c cs)
  show ?case
  proof
    assume "is_substring w (c # cs)"
    then consider "startswith w (c # cs)" | "is_substring w cs" by auto
    then show "\<exists>ps ss. c # cs = ps @ w @ ss"
    proof cases
      case 1
      then obtain ss where "c # cs = w @ ss" using startswith_iff by blast
      then have "c # cs = [] @ w @ ss" by simp
      then show ?thesis by blast
    next
      case 2
      then obtain ps ss where "cs = ps @ w @ ss" using Cons.IH by blast
      then have "c # cs = (c # ps) @ w @ ss" by simp
      then show ?thesis by blast
    qed
  next
    assume "\<exists>ps ss. c # cs = ps @ w @ ss"
    then obtain ps ss where e: "c # cs = ps @ w @ ss" by blast
    show "is_substring w (c # cs)"
    proof (cases ps)
      case Nil
      then have "startswith w (c # cs)" using e startswith_iff by auto
      then show ?thesis by simp
    next
      case (Cons p ps')
      then have "cs = ps' @ w @ ss" using e by simp
      then have "is_substring w cs" using Cons.IH by blast
      then show ?thesis by simp
    qed
  qed
qed

lemma split_Nil_iff: "split t = [] \<longleftrightarrow> (\<forall>c\<in>set t. isspace c)"
proof (cases "dropWhile isspace t")
  case Nil
  have "split t = []" by (subst split.simps) (simp only: Nil list.case)
  moreover have "\<forall>c\<in>set t. isspace c" using Nil by (simp add: dropWhile_eq_Nil_conv)
  ultimately show ?thesis by simp
next
  case (Cons c cs)
  have "split t \<noteq> []" by (subst split.simps) (simp only: Cons list.case list.distinct not_False_eq_True)
  moreover have "\<not> (\<forall>c\<in>set t. isspace c)"
    using Cons dropWhile_eq_Nil_conv [of isspace t] by auto
  ultimately show ?thesis by simp
qed

lemma strip_not_blank: "strip x \<noteq> [] \<Longrightarrow> \<not> isspace (last (strip x))"
proof -
  assume n: "strip x \<noteq> []"
  let ?d = "dropWhile isspace (rev (dropWhile isspace x))"
  have d: "?d \<noteq> []" using n by (simp add: strip_def)
  have "last (strip x) = hd ?d" using d by (simp add: strip_def last_rev)
  moreover have "\<not> isspace (hd ?d)" using d by (rule hd_dropWhile)
  ultimately show ?thesis by simp
qed

lemma split_strip_Nil: "split (strip x) = [] \<Longrightarrow> strip x = []"
proof (rule ccontr)
  assume e: "split (strip x) = []" and n: "strip x \<noteq> []"
  have "\<forall>c\<in>set (strip x). isspace c" using e by (simp only: split_Nil_iff)
  moreover have "last (strip x) \<in> set (strip x)" using n by simp
  ultimately have "isspace (last (strip x))" by blast
  then show False using strip_not_blank [OF n] by simp
qed

subsection \<open>The hook, branch by branch\<close>

lemma on_message_fst:
  "fst (on_message s m) =
     (if agent_is_speaking s \<and> \<not> contains_interrupt s (strip (lower m))
         \<and> only_soft_words s (split (strip (lower m)))
      then None else Some m)"
  by (simp add: on_message_def Let_def)

lemma Classify_eq:
  "Classify s m =
     Some (if agent_is_speaking s then
             if contains_interrupt s (strip (lower m)) then HardInterrupt m
             else if only_soft_words s (split (strip (lower m))) then Ignore
             else SemanticInterrupt m
           else PassThrough m)"
  by (simp add: Classify_def on_message_def Let_def)

lemma on_message_snd:
  "snd (on_message s m) =
     s\<lparr>trace := trace s @
        [LogUserSaid (strip (lower m)) (agent_is_speaking s)
           (contains_interrupt s (strip (lower m)))
           (only_soft_words s (split (strip (lower m)))),
         if agent_is_speaking s then
           if contains_interrupt s (strip (lower m)) then LogRealInterruption
           else if only_soft_words s (split (strip (lower m))) then LogPassiveAcknowledgement
           else LogSemanticInterruption
         else LogAgentSilent]\<rparr>"
  by (simp add: on_message_def Let_def)

subsection \<open>Facts shared by the proofs below\<close>

lemma speaking_initial: "agent_is_speaking (on_enter initial_state)"
  by (simp add: on_enter_def)

text \<open>The two lists the module is written with share no entry.\<close>

lemma module_word_lists_disjoint:
  "set (IGNORE_WORDS initial_state) \<inter> set (INTERRUPT_WORDS initial_state) = {}"
  by code_simp

lemma contains_interrupt_Nil: "contains_interrupt s [] \<longleftrightarrow> [] \<in> set (INTERRUPT_WORDS s)"
  by (auto simp add: contains_interrupt_def list_ex_iff)

lemma only_soft_words_Nil: "\<not> only_soft_words s []"
  by (simp add: only_soft_words_def)

lemma run_messages: "agent_is_speaking (run s (map Message ms)) = agent_is_speaking s"
  unfolding run_def by (induction ms arbitrary: s) (simp_all add: on_message_snd)

subsection \<open>Silent pass-through\<close>

text \<open>
  Claim C1. While the agent is silent, \<open>on_message\<close> returns the message it was
  given, whatever the message is: the decision is a pass-through carrying the original
  message. The word lists have no part in the result (they are read for the log line
  only): the same holds after replacing both lists by any others.
\<close>

theorem silent_pass_through:
  assumes "\<not> agent_is_speaking s"
  shows "fst (on_message s message) = Some message
       \<and> Classify s message = Some (PassThrough message)
       \<and> Classify (s\<lparr>IGNORE_WORDS := ignore_words, INTERRUPT_WORDS := interrupt_words\<rparr>) message
           = Some (PassThrough message)"
  using assms by (simp add: on_message_fst Classify_eq)

text \<open>
  An instance of \<open>silent_pass_through\<close> on a concrete message.
\<close>

theorem silent_pass_through_witness:
  "\<not> agent_is_speaking initial_state
   \<and> fst (on_message initial_state ''Stop yeah'') = Some ''Stop yeah''
   \<and> Classify initial_state ''Stop yeah'' = Some (PassThrough ''Stop yeah'')"
proof -
  have h: "\<not> agent_is_speaking initial_state" by (simp add: initial_state_def module_init_def)
  show ?thesis using h silent_pass_through [OF h, of "''Stop yeah''"] by simp
qed

subsection \<open>Speaking: hard interrupt, ignore, semantic interrupt\<close>

text \<open>
  Claim C2. While the agent is speaking, a message whose normalized text (lowercased,
  stripped) contains an entry of \<open>INTERRUPT_WORDS\<close> as a substring is a hard
  interrupt. The substring test is the raw one of \<open>is_substring_iff\<close>, so an entry
  inside a longer word counts. Nothing is assumed about the tokens: the result is the same
  when every token is also in \<open>IGNORE_WORDS\<close>.
\<close>

theorem interrupt_precedence:
  assumes "agent_is_speaking s"
    and "\<exists>word\<in>set (INTERRUPT_WORDS s). is_substring word (strip (lower message))"
  shows "fst (on_message s message) = Some message
       \<and> Classify s message = Some (HardInterrupt message)"
  using assms by (simp add: on_message_fst Classify_eq contains_interrupt_def list_ex_iff)

text \<open>
  An instance of \<open>interrupt_precedence\<close> on a concrete message.
\<close>

theorem interrupt_precedence_witness:
  "agent_is_speaking (on_enter (module_init [''no'', ''okay''] [''no'']))
   \<and> is_substring ''no'' (strip (lower ''Okay NO''))
   \<and> list_all (\<lambda>word. word \<in> set [''no'', ''okay'']) (split (strip (lower ''Okay NO'')))
   \<and> Classify (on_enter (module_init [''no'', ''okay''] [''no''])) ''Okay NO''
       = Some (HardInterrupt ''Okay NO'')"
proof -
  let ?s = "on_enter (module_init [''no'', ''okay''] [''no''])"
  have h1: "agent_is_speaking ?s" by (simp add: on_enter_def)
  have h2: "is_substring ''no'' (strip (lower ''Okay NO''))" by code_simp
  have h3: "\<exists>word\<in>set (INTERRUPT_WORDS ?s). is_substring word (strip (lower ''Okay NO''))"
    using h2 by (simp add: on_enter_def module_init_def)
  have h4: "list_all (\<lambda>word. word \<in> set [''no'', ''okay'']) (split (strip (lower ''Okay NO'')))"
    by code_simp
  show ?thesis using h1 h2 h4 interrupt_precedence [OF h1 h3] by simp
qed

text \<open>
  Claim C3. While the agent is speaking, a message with at least one token, all of whose
  tokens are entries of \<open>IGNORE_WORDS\<close> and whose normalized text contains no entry
  of \<open>INTERRUPT_WORDS\<close> as a substring, is ignored: \<open>on_message\<close> returns
  \<open>None\<close>.
\<close>

theorem soft_word_ignore:
  assumes "agent_is_speaking s"
    and "split (strip (lower message)) \<noteq> []"
    and "\<forall>word\<in>set (split (strip (lower message))). word \<in> set (IGNORE_WORDS s)"
    and "\<forall>word\<in>set (INTERRUPT_WORDS s). \<not> is_substring word (strip (lower message))"
  shows "fst (on_message s message) = None \<and> Classify s message = Some Ignore"
  using assms
  by (simp add: on_message_fst Classify_eq contains_interrupt_def only_soft_words_def
      list_ex_iff list_all_iff)

text \<open>
  An instance of \<open>soft_word_ignore\<close> on a concrete message.
\<close>

theorem soft_word_ignore_witness:
  "agent_is_speaking (on_enter initial_state)
   \<and> split (strip (lower ''Yeah  okay'')) = [''yeah'', ''okay'']
   \<and> fst (on_message (on_enter initial_state) ''Yeah  okay'') = None
   \<and> Classify (on_enter initial_state) ''Yeah  okay'' = Some Ignore"
proof -
  let ?s = "on_enter initial_state"
  have w: "split (strip (lower ''Yeah  okay'')) = [''yeah'', ''okay'']" by code_simp
  have t: "strip (lower ''Yeah  okay'') = ''yeah  okay''" by code_simp
  have h2: "split (strip (lower ''Yeah  okay'')) \<noteq> []" using w by simp
  have h3: "\<forall>word\<in>set (split (strip (lower ''Yeah  okay''))). word \<in> set (IGNORE_WORDS ?s)"
    by code_simp
  have h4: "\<forall>word\<in>set (INTERRUPT_WORDS ?s). \<not> is_substring word (strip (lower ''Yeah  okay''))"
    by code_simp
  show ?thesis using w speaking_initial soft_word_ignore [OF speaking_initial h2 h3 h4] by simp
qed

text \<open>
  Claim C4. While the agent is speaking, a message whose normalized text contains no
  entry of \<open>INTERRUPT_WORDS\<close> as a substring and whose tokens are not all entries of
  \<open>IGNORE_WORDS\<close> is a semantic interrupt carrying the message.
\<close>

theorem semantic_interrupt:
  assumes "agent_is_speaking s"
    and "\<forall>word\<in>set (INTERRUPT_WORDS s). \<not> is_substring word (strip (lower message))"
    and "\<not> (\<forall>word\<in>set (split (strip (lower message))). word \<in> set (IGNORE_WORDS s))"
  shows "fst (on_message s message) = Some message
       \<and> Classify s message = Some (SemanticInterrupt message)"
  using assms
  by (simp add: on_message_fst Classify_eq contains_interrupt_def only_soft_words_def
      list_ex_iff list_all_iff)

text \<open>
  An instance of \<open>semantic_interrupt\<close> on a concrete message.
\<close>

theorem semantic_interrupt_witness:
  "agent_is_speaking (on_enter initial_state)
   \<and> Classify (on_enter initial_state) ''What time is the meeting tomorrow''
       = Some (SemanticInterrupt ''What time is the meeting tomorrow'')"
proof -
  let ?s = "on_enter initial_state"
  let ?m = "''What time is the meeting tomorrow''"
  have w: "split (strip (lower ?m)) = [''what'', ''time'', ''is'', ''the'', ''meeting'', ''tomorrow'']"
    by code_simp
  have t: "strip (lower ?m) = ''what time is the meeting tomorrow''" by code_simp
  have h2: "\<forall>word\<in>set (INTERRUPT_WORDS ?s). \<not> is_substring word (strip (lower ?m))"
    by code_simp
  have h3: "\<not> (\<forall>word\<in>set (split (strip (lower ?m))). word \<in> set (IGNORE_WORDS ?s))"
    by code_simp
  show ?thesis using speaking_initial semantic_interrupt [OF speaking_initial h2 h3] by simp
qed

subsection \<open>Messages without tokens\<close>

text \<open>
  Claim C5 says that a message without tokens is ignored in both speech states. The
  hook has no test for an empty token list: \<open>only_soft_words\<close> is false for it, so
  a blank message is forwarded. Three spaces while the agent speaks are a semantic
  interrupt, and the empty message while it is silent is passed through.
\<close>

theorem empty_input_counterexample:
  "split (strip (lower ''   '')) = []
   \<and> Classify (on_enter initial_state) ''   '' = Some (SemanticInterrupt ''   '')
   \<and> Classify (on_enter initial_state) ''   '' \<noteq> Some Ignore
   \<and> fst (on_message (on_enter initial_state) ''   '') = Some ''   ''
   \<and> Classify initial_state [] = Some (PassThrough [])
   \<and> Classify initial_state [] \<noteq> Some Ignore"
  by code_simp

text \<open>
  Claim C5, amended. A message without tokens is never ignored: \<open>on_message\<close>
  returns the message itself. The decision is a pass-through while the agent is silent;
  while it speaks it is a semantic interrupt, or a hard interrupt when the empty string
  is an entry of \<open>INTERRUPT_WORDS\<close> (the empty string is a substring of every text).
\<close>

theorem empty_input_forwarded:
  assumes "split (strip (lower message)) = []"
  shows "fst (on_message s message) = Some message
       \<and> Classify s message =
           Some (if agent_is_speaking s then
                   if [] \<in> set (INTERRUPT_WORDS s) then HardInterrupt message
                   else SemanticInterrupt message
                 else PassThrough message)"
proof -
  have t: "strip (lower message) = []" using assms by (rule split_strip_Nil)
  have w: "split [] = []" by (simp add: split_Nil_iff)
  show ?thesis
    by (simp add: on_message_fst Classify_eq t w contains_interrupt_Nil only_soft_words_Nil)
qed

text \<open>
  An instance of \<open>empty_input_forwarded\<close> on a concrete message.
\<close>

theorem empty_input_forwarded_witness:
  "split (strip (lower ''   '')) = []
   \<and> fst (on_message (on_enter initial_state) ''   '') = Some ''   ''
   \<and> Classify (on_enter initial_state) ''   '' = Some (SemanticInterrupt ''   '')"
proof -
  have h: "split (strip (lower ''   '')) = []" by code_simp
  have n: "[] \<notin> set (INTERRUPT_WORDS (on_enter initial_state))" by code_simp
  show ?thesis
    using h n speaking_initial empty_input_forwarded [OF h, of "on_enter initial_state"]
    by simp
qed

subsection \<open>The speech flag\<close>

text \<open>
  Claim C7. The flag starts out false (silent). After any sequence of hook calls,
  \<open>on_enter\<close> leaves the agent speaking and \<open>on_response_complete\<close> leaves it
  silent. Two starts in a row leave it speaking, a completion then makes it silent, and
  one more completion leaves it silent. A repeated call changes nothing but the trace
  of log lines and session requests.
\<close>

theorem lifecycle_idempotence:
  "\<not> agent_is_speaking (module_init ignore_words interrupt_words)
   \<and> agent_is_speaking (on_enter (run s calls))
   \<and> \<not> agent_is_speaking (on_response_complete (run s calls))
   \<and> agent_is_speaking (on_enter (on_enter s))
   \<and> \<not> agent_is_speaking (on_response_complete (on_enter (on_enter s)))
   \<and> \<not> agent_is_speaking (on_response_complete (on_response_complete (on_enter (on_enter s))))
   \<and> (on_enter (on_enter s))\<lparr>trace := t\<rparr> = (on_enter s)\<lparr>trace := t\<rparr>
   \<and> (on_response_complete (on_response_complete s))\<lparr>trace := t\<rparr>
       = (on_response_complete s)\<lparr>trace := t\<rparr>"
  by (simp add: module_init_def on_enter_def on_response_complete_def)

text \<open>
  An instance of \<open>lifecycle_idempotence\<close> on a concrete message.
\<close>

theorem lifecycle_idempotence_witness:
  "\<not> agent_is_speaking initial_state
   \<and> agent_is_speaking (on_enter (on_enter initial_state))
   \<and> \<not> agent_is_speaking (on_response_complete (on_enter (on_enter initial_state)))
   \<and> \<not> agent_is_speaking
         (on_response_complete (on_response_complete (on_enter (on_enter initial_state))))"
  using lifecycle_idempotence
    [of "[''yeah'', ''ok'', ''okay'', ''hmm'', ''uh-huh'', ''right'']"
        "[''stop'', ''wait'', ''no'', ''hold on'']" initial_state]
  unfolding initial_state_def [symmetric] by blast

subsection \<open>Determinism and frame\<close>

text \<open>
  Claim C8. The outcome of \<open>on_message\<close> is a function of the speech flag, the two
  word lists and the message only: two states that agree on the flag and the lists give
  the same returned value and the same decision, whatever else differs between them
  (here, the trace of earlier calls).
\<close>

theorem classification_deterministic:
  assumes "agent_is_speaking s = agent_is_speaking s'"
    and "IGNORE_WORDS s = IGNORE_WORDS s'"
    and "INTERRUPT_WORDS s = INTERRUPT_WORDS s'"
  shows "fst (on_message s message) = fst (on_message s' message)
       \<and> Classify s message = Classify s' message"
  using assms
  by (simp add: on_message_fst Classify_eq contains_interrupt_def only_soft_words_def)

text \<open>
  An instance of \<open>classification_deterministic\<close> on a concrete message.
\<close>

theorem classification_deterministic_witness:
  "trace (on_enter initial_state) \<noteq> trace (on_enter (on_response_complete (on_enter initial_state)))
   \<and> Classify (on_enter initial_state) ''wait a minute''
       = Classify (on_enter (on_response_complete (on_enter initial_state))) ''wait a minute''"
proof -
  let ?s = "on_enter initial_state"
  let ?s' = "on_enter (on_response_complete (on_enter initial_state))"
  have h1: "agent_is_speaking ?s = agent_is_speaking ?s'" by (simp add: on_enter_def)
  have h2: "IGNORE_WORDS ?s = IGNORE_WORDS ?s'"
    by (simp add: on_enter_def on_response_complete_def)
  have h3: "INTERRUPT_WORDS ?s = INTERRUPT_WORDS ?s'"
    by (simp add: on_enter_def on_response_complete_def)
  have d: "trace ?s \<noteq> trace ?s'" by (simp add: on_enter_def on_response_complete_def)
  show ?thesis using d classification_deterministic [OF h1 h2 h3] by blast
qed

text \<open>
  Claim C9. \<open>on_message\<close> leaves the speech flag and both word lists as they were:
  the state after the call differs from the state before in its trace only. So any run
  of \<open>on_message\<close> calls alone leaves the flag unchanged; only \<open>on_enter\<close> and
  \<open>on_response_complete\<close> write it.
\<close>

theorem on_message_frame:
  "agent_is_speaking (snd (on_message s message)) = agent_is_speaking s
   \<and> IGNORE_WORDS (snd (on_message s message)) = IGNORE_WORDS s
   \<and> INTERRUPT_WORDS (snd (on_message s message)) = INTERRUPT_WORDS s
   \<and> (snd (on_message s message))\<lparr>trace := t\<rparr> = s\<lparr>trace := t\<rparr>
   \<and> agent_is_speaking (run s (map Message messages)) = agent_is_speaking s"
  by (simp add: run_messages) (simp add: on_message_snd)

text \<open>
  An instance of \<open>on_message_frame\<close> on a concrete message.
\<close>

theorem on_message_frame_witness:
  "agent_is_speaking (snd (on_message (on_enter initial_state) ''stop'')) 
   \<and> agent_is_speaking (run (on_enter initial_state) [Message ''stop'', Message ''yeah''])"
  using speaking_initial
    on_message_frame [of "on_enter initial_state" "''stop''" "[]" "[''stop'', ''yeah'']"]
  by simp

subsection \<open>What is forwarded\<close>

text \<open>
  Claim C10. Whenever \<open>on_message\<close> forwards something, in the hard-interrupt,
  semantic-interrupt and pass-through branches alike, it is the message exactly as
  received, not the lowercased and stripped text the tests were made on.
\<close>

theorem forwarded_verbatim:
  "(fst (on_message s message) = Some r \<longrightarrow> r = message)
   \<and> (Classify s message = Some (HardInterrupt r) \<longrightarrow> r = message)
   \<and> (Classify s message = Some (SemanticInterrupt r) \<longrightarrow> r = message)
   \<and> (Classify s message = Some (PassThrough r) \<longrightarrow> r = message)"
  by (auto simp add: on_message_fst Classify_eq split: if_splits)

text \<open>
  An instance of \<open>forwarded_verbatim\<close> on a concrete message.
\<close>

theorem forwarded_verbatim_witness:
  "fst (on_message (on_enter initial_state) '' STOP now '') = Some '' STOP now ''
   \<and> strip (lower '' STOP now '') = ''stop now''"
proof -
  have t: "strip (lower '' STOP now '') = ''stop now''" by code_simp
  have "fst (on_message (on_enter initial_state) '' STOP now '') \<noteq> None" by code_simp
  then obtain r where r: "fst (on_message (on_enter initial_state) '' STOP now '') = Some r"
    by blast
  then have "r = '' STOP now ''"
    using forwarded_verbatim [of "on_enter initial_state" "'' STOP now ''" r] by blast
  then show ?thesis using r t by simp
qed

end
